theory Spec2Isabelle
  imports Main "HOL-Library.Sublist"
begin

section \<open>The pyzippy codec\<close>

text \<open>
  A shallow embedding of the codec of \<^verbatim>\<open>pyzippy.py\<close>: the symbol table, the keyword
  regex with \<^verbatim>\<open>re.split\<close>, \<^verbatim>\<open>_form_ident\<close>, \<^verbatim>\<open>_encode\<close> and \<^verbatim>\<open>_decode\<close>.

  A Python \<^verbatim>\<open>str\<close> is modelled as a \<^typ>\<open>string\<close>, one \<^typ>\<open>char\<close> per code point
  (so the model covers the code points below 256). A leading underscore is not
  allowed in a constant's name, so \<^verbatim>\<open>_encode\<close> is \<open>encode\<close>, and so on.
  Exceptions are values of \<open>error\<close>; a function that can raise returns
  \<open>error + 'a\<close>, with \<open>Inl\<close> for the exception.
\<close>

subsection \<open>Exceptions\<close>

datatype error =
    IndexError                \<comment> \<open>string index out of range\<close>
  | InvalidSymbol char        \<comment> \<open>\<^verbatim>\<open>ValueError(f"Invalid Symbol \"{x}\". ...")\<close>\<close>
  | SubstringNotFound         \<comment> \<open>\<^verbatim>\<open>ValueError\<close> of \<^verbatim>\<open>str.index\<close>\<close>
  | CodecError                \<comment> \<open>\<^verbatim>\<open>zlib.error\<close>, \<^verbatim>\<open>binascii.Error\<close>, \<^verbatim>\<open>UnicodeDecodeError\<close>\<close>

subsection \<open>The symbol table\<close>

text \<open>
  \<^verbatim>\<open>table\<close> is a dict literal; a dict keeps insertion order, and the regex is built
  from \<^verbatim>\<open>table.keys()\<close> in that order, so the table is an association list.
  The quote, the double quote, the backquote, the backslash, the newline and the tab
  are written by their codes.
\<close>

definition table :: "(string \<times> char) list" where
  "table =
   [(''False'', CHR ''A''), (''await'', CHR ''a''), (''else'', CHR ''B''), (''import'', CHR ''b''),
    (''pass'', CHR ''C''), (''None'', CHR ''c''), (''break'', CHR ''D''), (''except'', CHR ''d''),
    (''in'', CHR ''E''), (''raise'', CHR ''e''), (''True'', CHR ''F''),
    (''class'', CHR ''f''), (''finally'', CHR ''G''), (''is'', CHR ''g''), (''return'', CHR ''H''),
    (''and'', CHR ''h''), (''continue'', CHR ''I''), (''for'', CHR ''i''), (''lambda'', CHR ''J''),
    (''try'', CHR ''j''), (''as'', CHR ''K''), (''def'', CHR ''k''),
    (''from'', CHR ''L''), (''nonlocal'', CHR ''l''), (''while'', CHR ''M''), (''assert'', CHR ''m''),
    (''del'', CHR ''N''), (''global'', CHR ''n''), (''not'', CHR ''O''), (''with'', CHR ''o''),
    (''async'', CHR ''P''), (''elif'', CHR ''p''), (''if'', CHR ''Q''), (''or'', CHR ''q''),
    (''yield'', CHR ''R''),
    (''!'', CHR ''r''), (''@'', CHR ''S''), (''#'', CHR ''s''), (''%'', CHR ''t''), (''^'', CHR ''U''),
    (''&'', CHR ''u''), (''*'', CHR ''V''), (''('', CHR ''v''), ('')'', CHR ''W''), (''['', CHR ''w''),
    ('']'', CHR ''X''), (''{'', CHR ''x''), (''}'', CHR ''Y''), ('';'', CHR ''y''), ('':'', CHR ''Z''),
    ([CHR 0x27], CHR ''z''), ([CHR 0x22], CHR ''1''), ('','', CHR ''2''), (''/'', CHR ''3''),
    ([CHR 0x60], CHR ''4''),
    ([CHR 0x5C], CHR ''6''), (''|'', CHR ''7''), (''='', CHR ''8''),
    ([CHR 0x0A], CHR ''0''),
    ([CHR 0x09], CHR ''T''),
    ('' '', CHR ''9'')]"

text \<open>\<^verbatim>\<open>x in table\<close> and \<^verbatim>\<open>table[x]\<close>.\<close>

definition table_get :: "string \<Rightarrow> char option" where
  "table_get = map_of table"

text \<open>
  \<^verbatim>\<open>rev_table = {v: k for k, v in table.items()}\<close>: the items are inserted in order,
  a later item replacing an earlier one with the same key.
\<close>

definition rev_table :: "char \<Rightarrow> string option" where
  "rev_table = fold (\<lambda>(k, v) m. m(v \<mapsto> k)) table Map.empty"

definition base_62 :: string where
  "base_62 = ''0123456789abcdefghijklmnopqrstuvwxyzABCDEFGHIJKLMNOPQRSTUVWXYZ''"

text \<open>The literals in the order of the alternation of \<^verbatim>\<open>_kywds\<close>, and the codes.\<close>

definition literals :: "string list" where
  "literals = map fst table"

definition codes :: "char list" where
  "codes = map snd table"

subsection \<open>Python's indexing, slicing and \<^verbatim>\<open>range\<close>\<close>

text \<open>\<^verbatim>\<open>xs[i]\<close>: a negative index counts from the end; out of range is an IndexError.\<close>

definition getitem :: "'a list \<Rightarrow> int \<Rightarrow> error + 'a" where
  "getitem xs i =
     (if 0 \<le> i \<and> i < int (length xs) then Inr (xs ! nat i)
      else if i < 0 \<and> - int (length xs) \<le> i then Inr (xs ! nat (int (length xs) + i))
      else Inl IndexError)"

text \<open>\<^verbatim>\<open>xs[a:b]\<close> for \<open>0 \<le> a\<close> and \<open>0 \<le> b\<close>: clipped to the list, never an error.\<close>

definition slice :: "'a list \<Rightarrow> nat \<Rightarrow> nat \<Rightarrow> 'a list" where
  "slice xs a b = drop a (take b xs)"

text \<open>\<^verbatim>\<open>range(0, n, step)\<close> as the list of its values.\<close>

definition range_from_0 :: "nat \<Rightarrow> nat \<Rightarrow> nat list" where
  "range_from_0 n step = map (\<lambda>k. k * step) [0 ..< (n + (step - 1)) div step]"

text \<open>\<^verbatim>\<open>xs.index(y)\<close>: the first position of \<open>y\<close>, a ValueError when there is none.\<close>

fun index_of :: "'a list \<Rightarrow> 'a \<Rightarrow> error + nat" where
  "index_of [] y = Inl SubstringNotFound"
| "index_of (x # xs) y =
     (if x = y then Inr 0
      else case index_of xs y of Inl e \<Rightarrow> Inl e | Inr i \<Rightarrow> Inr (Suc i))"

subsection \<open>The ident framer\<close>

text \<open>
  \<^verbatim>\<open>
  def _form_ident(x: str):
      segments = []
      for s in range(0, len(x), 63):
          segment = x[s * 63:(s + 1) * 63]
          segments.append("5" + base_62[len(segment) - 1] + segment)
      return "".join(segments)
  \<close>
  The loop runs over the values of the range; \<^verbatim>\<open>base_62[...]\<close> can raise.
\<close>

fun form_ident_loop :: "string \<Rightarrow> nat list \<Rightarrow> string list \<Rightarrow> error + string list" where
  "form_ident_loop x [] segments = Inr segments"
| "form_ident_loop x (s # ss) segments =
     (let segment = slice x (s * 63) ((s + 1) * 63) in
      case getitem base_62 (int (length segment) - 1) of
        Inl e \<Rightarrow> Inl e
      | Inr d \<Rightarrow> form_ident_loop x ss (segments @ [CHR ''5'' # d # segment]))"

definition form_ident :: "string \<Rightarrow> error + string" where
  "form_ident x =
     (case form_ident_loop x (range_from_0 (length x) 63) [] of
        Inl e \<Rightarrow> Inl e
      | Inr segments \<Rightarrow> Inr (concat segments))"

subsection \<open>The keyword regex and \<^verbatim>\<open>re.split\<close>\<close>

text \<open>
  \<^verbatim>\<open>_kywds = re.compile("(" + "|".join(re.escape(x) for x in table.keys()) + ")")\<close>
  is one group holding an alternation of escaped literals. Matching it at a position
  tries the alternatives from left to right and takes the first literal that the text
  there starts with.
\<close>

definition kywds_match :: "string \<Rightarrow> string option" where
  "kywds_match s = find (\<lambda>l. prefix l s) literals"

text \<open>
  \<^verbatim>\<open>re.split(_kywds, txt)\<close>: the regex is searched from left to right; the text
  before a match, then the match itself (the pattern has one capturing group), are
  appended, and the search goes on after the match; the text after the last match
  ends the list. \<open>gap\<close> is the text passed over since the last match.
\<close>

function re_split_from :: "string \<Rightarrow> string \<Rightarrow> string list" where
  "re_split_from gap [] = [gap]"
| "re_split_from gap (c # cs) =
     (case kywds_match (c # cs) of
        None \<Rightarrow> re_split_from (gap @ [c]) cs
      | Some l \<Rightarrow> gap # l # re_split_from [] (drop (length l) (c # cs)))"
  by pat_completeness auto
termination
proof (relation "measure (\<lambda>(gap, s). length s)")
  show "wf (measure (\<lambda>(gap, s). length s))"
    by simp
next
  fix gap :: string and c cs
  show "((gap @ [c], cs), (gap, c # cs)) \<in> measure (\<lambda>(gap, s). length s)"
    by simp
next
  fix gap :: string and c cs l
  assume "kywds_match (c # cs) = Some l"
  then have "l \<in> set literals"
    by (auto simp: kywds_match_def find_Some_iff)
  moreover have "[] \<notin> set literals"
    by (simp add: literals_def table_def)
  ultimately have "l \<noteq> []"
    by metis
  then show "(([], drop (length l) (c # cs)), (gap, c # cs)) \<in> measure (\<lambda>(gap, s). length s)"
    by simp
qed

definition re_split :: "string \<Rightarrow> string list" where
  "re_split txt = re_split_from [] txt"

subsection \<open>Encoding\<close>

text \<open>
  \<^verbatim>\<open>
  payload_string = ""
  for x in re.split(_kywds, txt):
      if x == "":
          continue
      if x in table:
          payload_string += table[x]
          continue
      payload_string += _form_ident(x)
  \<close>
\<close>

fun encode_loop :: "string list \<Rightarrow> string \<Rightarrow> error + string" where
  "encode_loop [] payload_string = Inr payload_string"
| "encode_loop (x # xs) payload_string =
     (if x = [] then encode_loop xs payload_string
      else case table_get x of
        Some c \<Rightarrow> encode_loop xs (payload_string @ [c])
      | None \<Rightarrow>
          (case form_ident x of
             Inl e \<Rightarrow> Inl e
           | Inr frames \<Rightarrow> encode_loop xs (payload_string @ frames)))"

definition payload_of :: "string \<Rightarrow> error + string" where
  "payload_of txt = encode_loop (re_split txt) []"

text \<open>
  The compression gate. \<open>deflate\<close> stands for the library call
  \<^verbatim>\<open>base64.encodebytes(zlib.compress(s.encode())).decode("ascii")\<close>, which is not
  code of this repository.
  \<^verbatim>\<open>
  if len(payload_string) > threshold_length:
      encoded = "1" + deflate(payload_string)
      return encoded if len(encoded) < len(payload_string) + 1 else "0" + payload_string
  return "0" + payload_string
  \<close>
\<close>

definition gate :: "(string \<Rightarrow> string) \<Rightarrow> string \<Rightarrow> int \<Rightarrow> string" where
  "gate deflate payload_string threshold_length =
     (if int (length payload_string) > threshold_length then
        (let encoded = CHR ''1'' # deflate payload_string in
         if length encoded < length payload_string + 1 then encoded
         else CHR ''0'' # payload_string)
      else CHR ''0'' # payload_string)"

definition encode :: "(string \<Rightarrow> string) \<Rightarrow> string \<Rightarrow> int \<Rightarrow> error + string" where
  "encode deflate txt threshold_length =
     (case payload_of txt of
        Inl e \<Rightarrow> Inl e
      | Inr payload_string \<Rightarrow> Inr (gate deflate payload_string threshold_length))"

subsection \<open>Decoding\<close>

text \<open>
  \<^verbatim>\<open>
  while pointer < len(text):
      x = text[pointer]
      pointer += 1
      if x in rev_table:
          payload += rev_table[x]
          continue
      elif x != "5":
          raise ValueError(f"Invalid Symbol \"{x}\". ...")
      length = base_62.index(text[pointer]) + 1
      pointer += 1
      payload += text[pointer:pointer + length]
      pointer += length
  return payload
  \<close>
\<close>

function decode_loop :: "string \<Rightarrow> nat \<Rightarrow> string \<Rightarrow> error + string" where
  "decode_loop text pointer payload =
     (if pointer < length text then
        (let x = text ! pointer in
         case rev_table x of
           Some lit \<Rightarrow> decode_loop text (pointer + 1) (payload @ lit)
         | None \<Rightarrow>
             if x \<noteq> CHR ''5'' then Inl (InvalidSymbol x)
             else
               (case getitem text (int (pointer + 1)) of
                  Inl e \<Rightarrow> Inl e
                | Inr d \<Rightarrow>
                    (case index_of base_62 d of
                       Inl e \<Rightarrow> Inl e
                     | Inr i \<Rightarrow>
                         decode_loop text (pointer + 2 + (i + 1))
                           (payload @ slice text (pointer + 2) (pointer + 2 + (i + 1))))))
      else Inr payload)"
  by pat_completeness auto
termination
  by (relation "measure (\<lambda>(text, pointer, payload). length text - pointer)") auto

declare decode_loop.simps [simp del]

text \<open>
  \<open>inflate\<close> stands for the library call
  \<^verbatim>\<open>zlib.decompress(base64.decodebytes(text.encode("ascii"))).decode()\<close>, which can
  raise.
  \<^verbatim>\<open>
  compression = text[0]
  text = text[1:]
  if compression == "1":
      text = inflate(text)
  \<close>
\<close>

definition decode :: "(string \<Rightarrow> error + string) \<Rightarrow> string \<Rightarrow> error + string" where
  "decode inflate text =
     (case getitem text 0 of
        Inl e \<Rightarrow> Inl e
      | Inr compression \<Rightarrow>
          (case (if compression = CHR ''1'' then inflate (drop 1 text) else Inr (drop 1 text)) of
             Inl e \<Rightarrow> Inl e
           | Inr text' \<Rightarrow> decode_loop text' 0 []))"

text \<open>
  The states of the loop of \<^verbatim>\<open>_decode\<close> on \<open>body\<close>: \<open>walks body pointer payload\<close>
  holds when the loop, started with \<^verbatim>\<open>pointer = 0\<close> and \<^verbatim>\<open>payload = ""\<close>, is at the
  head of the \<^verbatim>\<open>while\<close> with these values. The pointers of these states are the
  positions where the decoder expects a token.
\<close>

inductive walks :: "string \<Rightarrow> nat \<Rightarrow> string \<Rightarrow> bool" for body where
  start: "walks body 0 []"
| symbol: "walks body pointer payload \<Longrightarrow> pointer < length body \<Longrightarrow>
     rev_table (body ! pointer) = Some lit \<Longrightarrow>
     walks body (pointer + 1) (payload @ lit)"
| frame: "walks body pointer payload \<Longrightarrow> pointer < length body \<Longrightarrow>
     rev_table (body ! pointer) = None \<Longrightarrow> body ! pointer = CHR ''5'' \<Longrightarrow>
     getitem body (int (pointer + 1)) = Inr d \<Longrightarrow> index_of base_62 d = Inr i \<Longrightarrow>
     walks body (pointer + 2 + (i + 1))
       (payload @ slice body (pointer + 2) (pointer + 2 + (i + 1)))"

code_pred walks .

text \<open>
  A stand-in for the library where it is not called (the flag is not \<open>1\<close>): it rejects
  every body.
\<close>

definition inflate_fails :: "string \<Rightarrow> error + string" where
  "inflate_fails body = Inl CodecError"

section \<open>The symbol table is a bijection\<close>

lemma distinct_literals: "distinct literals"
  by (simp add: literals_def table_def)

lemma distinct_codes: "distinct codes"
  by (simp add: codes_def table_def)

text \<open>
  Inserting the swapped items one by one, as the dict comprehension does, gives the map
  of the swapped association list as long as no value occurs twice.
\<close>

lemma fold_swap_map_of:
  "distinct (map snd xs) \<Longrightarrow>
   fold (\<lambda>(k, v) m. m(v \<mapsto> k)) xs m0 = m0 ++ map_of (map (\<lambda>(k, v). (v, k)) xs)"
proof (induction xs arbitrary: m0)
  case Nil
  show ?case by simp
next
  case (Cons x xs)
  obtain k v where x: "x = (k, v)"
    by (cases x)
  from Cons.prems x have fresh: "v \<notin> snd ` set xs" and d: "distinct (map snd xs)"
    by auto
  have "fst ` set (map (\<lambda>(k, v). (v, k)) xs) = snd ` set xs"
    by force
  with fresh have "v \<notin> dom (map_of (map (\<lambda>(k, v). (v, k)) xs))"
    by (simp only: dom_map_of_conv_image_fst not_False_eq_True)
  then have swap: "(m0(v \<mapsto> k)) ++ map_of (map (\<lambda>(k, v). (v, k)) xs)
      = (m0 ++ map_of (map (\<lambda>(k, v). (v, k)) xs))(v \<mapsto> k)"
    by (auto simp: fun_eq_iff map_add_def split: option.splits)
  have "fold (\<lambda>(k, v) m. m(v \<mapsto> k)) (x # xs) m0
      = fold (\<lambda>(k, v) m. m(v \<mapsto> k)) xs (m0(v \<mapsto> k))"
    by (simp add: x)
  also have "\<dots> = (m0(v \<mapsto> k)) ++ map_of (map (\<lambda>(k, v). (v, k)) xs)"
    by (rule Cons.IH [OF d])
  also have "\<dots> = (m0 ++ map_of (map (\<lambda>(k, v). (v, k)) xs))(v \<mapsto> k)"
    by (rule swap)
  also have "\<dots> = m0 ++ map_of (map (\<lambda>(k, v). (v, k)) (x # xs))"
    by (simp add: x)
  finally show ?case .
qed

lemma rev_table_map_of: "rev_table = map_of (map (\<lambda>(k, v). (v, k)) table)"
  using fold_swap_map_of [of table Map.empty] distinct_codes
  by (simp add: rev_table_def codes_def)

lemma table_get_iff: "table_get k = Some v \<longleftrightarrow> (k, v) \<in> set table"
  using distinct_literals by (simp add: table_get_def literals_def)

lemma rev_table_iff: "rev_table v = Some k \<longleftrightarrow> (k, v) \<in> set table"
proof -
  have "distinct (map fst (map (\<lambda>(k, v). (v, k)) table))"
    using distinct_codes by (simp add: codes_def comp_def case_prod_unfold)
  then have "rev_table v = Some k \<longleftrightarrow> (v, k) \<in> set (map (\<lambda>(k, v). (v, k)) table)"
    by (simp add: rev_table_map_of)
  then show ?thesis
    by auto
qed

lemma dom_table_get: "dom table_get = set literals"
  by (simp add: table_get_def literals_def dom_map_of_conv_image_fst)

lemma dom_rev_table: "dom rev_table = set codes"
proof -
  have "fst ` set (map (\<lambda>(k, v). (v, k)) table) = snd ` set table"
    by force
  then show ?thesis
    by (simp add: rev_table_map_of codes_def dom_map_of_conv_image_fst)
qed

text \<open>
  Claim C7. The symbol table is a bijection: the literals are pairwise different and so
  are the codes (every code occurs once), the reverse map has as many entries as the
  forward map (61), no two literals have the same code, and the forward map followed
  by the reverse map, and the reverse map followed by the forward map, give back the
  key they started from.
\<close>

theorem table_bijection:
  "distinct literals \<and> distinct codes
   \<and> card (dom rev_table) = card (dom table_get) \<and> card (dom table_get) = 61
   \<and> (\<forall>k k' v. table_get k = Some v \<and> table_get k' = Some v \<longrightarrow> k = k')
   \<and> (\<forall>k v. table_get k = Some v \<longrightarrow> rev_table v = Some k)
   \<and> (\<forall>v k. rev_table v = Some k \<longrightarrow> table_get k = Some v)"
proof -
  have len: "length literals = 61" "length codes = 61"
    by (simp_all add: literals_def codes_def table_def)
  have c1: "card (dom table_get) = 61"
    using distinct_literals len by (simp add: dom_table_get distinct_card)
  have "card (dom rev_table) = 61"
    using distinct_codes len by (simp add: dom_rev_table distinct_card)
  with c1 have c2: "card (dom rev_table) = card (dom table_get)"
    by simp
  have "k = k'" if "table_get k = Some v" "table_get k' = Some v" for k k' v
  proof -
    from that have "rev_table v = Some k" "rev_table v = Some k'"
      by (simp_all add: table_get_iff rev_table_iff)
    then show ?thesis
      by simp
  qed
  then have inj: "\<forall>k k' v. table_get k = Some v \<and> table_get k' = Some v \<longrightarrow> k = k'"
    by blast
  have fr: "\<forall>k v. table_get k = Some v \<longrightarrow> rev_table v = Some k"
    by (simp add: table_get_iff rev_table_iff)
  have rf: "\<forall>v k. rev_table v = Some k \<longrightarrow> table_get k = Some v"
    by (simp add: table_get_iff rev_table_iff)
  show ?thesis
    by (rule conjI [OF distinct_literals conjI [OF distinct_codes
          conjI [OF c2 conjI [OF c1 conjI [OF inj conjI [OF fr rf]]]]]])
qed

theorem table_bijection_witness:
  "table_get ''if'' = Some CHR ''Q'' \<and> rev_table CHR ''Q'' = Some ''if''
   \<and> table_get ''elif'' \<noteq> Some CHR ''Q''"
proof -
  have fwd: "table_get ''if'' = Some CHR ''Q''"
    by (simp add: table_get_def table_def)
  have inj: "\<forall>k k' v. table_get k = Some v \<and> table_get k' = Some v \<longrightarrow> k = k'"
    using table_bijection by (elim conjE)
  have fr: "\<forall>k v. table_get k = Some v \<longrightarrow> rev_table v = Some k"
    using table_bijection by (elim conjE)
  from fr fwd have bwd: "rev_table CHR ''Q'' = Some ''if''"
    by blast
  have "table_get ''elif'' \<noteq> Some CHR ''Q''"
  proof
    assume "table_get ''elif'' = Some CHR ''Q''"
    with inj fwd have "''if'' = ''elif''"
      by blast
    then show False
      by simp
  qed
  with fwd bwd show ?thesis
    by simp
qed

section \<open>The codes and the length digits\<close>

lemma codes_subset_base_62: "set codes \<subseteq> set base_62"
  by (simp add: codes_def table_def base_62_def)

lemma base_62_subset_codes: "set base_62 - {CHR ''5''} \<subseteq> set codes"
  by (auto simp: codes_def table_def base_62_def)

lemma marker_not_code: "CHR ''5'' \<notin> set codes"
  by (simp add: codes_def table_def)

text \<open>
  Claim C6, as stated: the codes are disjoint from the marker and from the base-62
  digits. The second half fails: the code \<open>A\<close> of \<open>False\<close> is a base-62 digit.
\<close>

theorem codes_disjoint_counterexample:
  "\<not> (CHR ''5'' \<notin> set codes \<and> set codes \<inter> set base_62 = {})"
proof -
  have "CHR ''A'' \<in> set codes"
    by (simp add: codes_def table_def)
  moreover have "CHR ''A'' \<in> set base_62"
    by (simp add: base_62_def)
  ultimately show ?thesis
    by blast
qed

text \<open>
  Claim C6, amended. The codes are disjoint from the marker \<open>5\<close>, and they are exactly
  the base-62 digits other than \<open>5\<close>: every code is also a length digit.
\<close>

theorem codes_are_base_62_without_marker:
  "CHR ''5'' \<notin> set codes \<and> set codes = set base_62 - {CHR ''5''}"
  using codes_subset_base_62 base_62_subset_codes marker_not_code by blast

section \<open>The ident framer\<close>

lemma length_base_62: "length base_62 = 62"
  by (simp add: base_62_def)

lemma range_from_0_one: "1 \<le> n \<Longrightarrow> n \<le> 63 \<Longrightarrow> range_from_0 n 63 = [0]"
proof -
  assume "1 \<le> n" "n \<le> 63"
  then have "(n + 62) div 63 = 1"
    by (intro div_nat_eqI) simp_all
  then show ?thesis
    by (simp add: range_from_0_def)
qed

lemma range_from_0_first: "1 \<le> n \<Longrightarrow> \<exists>ss. range_from_0 n 63 = 0 # ss"
proof -
  assume "1 \<le> n"
  then have "63 \<le> n + 62"
    by simp
  then have "0 < (n + 62) div 63"
    by (simp add: div_greater_zero_iff)
  then show ?thesis
    by (simp add: range_from_0_def upt_conv_Cons)
qed

lemma form_ident_empty: "form_ident [] = Inr []"
  by (simp add: form_ident_def range_from_0_def)

lemma form_ident_short:
  assumes "1 \<le> length x" "length x \<le> 62"
  shows "form_ident x = Inr (CHR ''5'' # base_62 ! (length x - 1) # x)"
proof -
  obtain n where n: "length x = Suc n" "n < 62"
    using assms by (cases "length x") auto
  have r: "range_from_0 (length x) 63 = [0]"
    using assms by (simp add: range_from_0_one)
  have s: "slice x 0 63 = x"
    using assms by (simp add: slice_def)
  have "getitem base_62 (int (length x) - 1) = Inr (base_62 ! n)"
    using n by (simp add: getitem_def length_base_62)
  then have g: "getitem base_62 (int (length x) - 1) = Inr (base_62 ! (length x - 1))"
    using n by simp
  have "form_ident_loop x [0] [] = Inr [CHR ''5'' # base_62 ! (length x - 1) # x]"
    by (simp add: s g)
  then show ?thesis
    by (simp add: form_ident_def r)
qed

lemma form_ident_long:
  assumes "63 \<le> length x"
  shows "form_ident x = Inl IndexError"
proof -
  obtain ss where r: "range_from_0 (length x) 63 = 0 # ss"
    using assms range_from_0_first [of "length x"] by auto
  have s: "length (slice x 0 63) = 63"
    using assms by (simp add: slice_def)
  have g: "getitem base_62 (int (length (slice x 0 63)) - 1) = Inl IndexError"
    by (simp add: s getitem_def length_base_62)
  show ?thesis
    using g by (simp add: form_ident_def r)
qed

text \<open>
  Claim C2: a segment of 62 characters gives one frame, and a segment of 63 characters
  should give two frames that hold its characters. The first half holds: the frame is
  \<open>5Z\<close> followed by the segment. The second does not: the loop steps by 63 and its
  first slice has 63 characters, whose length digit would be \<^verbatim>\<open>base_62[62]\<close>, out of
  range, so \<^verbatim>\<open>_form_ident\<close> raises IndexError (as it does on every longer segment,
  by \<open>form_ident_long\<close>).
\<close>

theorem form_ident_boundary:
  "form_ident (replicate 62 CHR ''x'') = Inr (''5Z'' @ replicate 62 CHR ''x'')
   \<and> form_ident (replicate 63 CHR ''x'') = Inl IndexError"
proof -
  have z: "base_62 ! 61 = CHR ''Z''"
    by (simp add: base_62_def)
  have "form_ident (replicate 62 CHR ''x'')
      = Inr (CHR ''5'' # base_62 ! (length (replicate 62 CHR ''x'') - 1) # replicate 62 CHR ''x'')"
    by (rule form_ident_short) simp_all
  then have a: "form_ident (replicate 62 CHR ''x'') = Inr (''5Z'' @ replicate 62 CHR ''x'')"
    by (simp add: z)
  have b: "form_ident (replicate 63 CHR ''x'') = Inl IndexError"
    by (rule form_ident_long) simp
  from a b show ?thesis
    by (rule conjI)
qed

section \<open>The loop of the decoder\<close>

lemma getitem_nat: "n < length xs \<Longrightarrow> getitem xs (int n) = Inr (xs ! n)"
  by (simp add: getitem_def)

lemma rev_table_marker: "rev_table CHR ''5'' = None"
  using marker_not_code dom_rev_table by (metis domIff)

lemma decode_loop_done: "length body \<le> pointer \<Longrightarrow> decode_loop body pointer payload = Inr payload"
  by (subst decode_loop.simps) simp

lemma table_Q: "rev_table CHR ''Q'' = Some ''if''"
  by (simp add: rev_table_iff table_def)

lemma walks_Q: "walks (CHR ''Q'' # rest) 1 ''if''"
  using walks.symbol [OF walks.start, of "CHR ''Q'' # rest" "''if''"] table_Q by simp

lemma index_of_Z: "index_of base_62 CHR ''Z'' = Inr 61"
  by (simp add: base_62_def)

lemma walks_decode_loop:
  "walks body pointer payload \<Longrightarrow> decode_loop body 0 [] = decode_loop body pointer payload"
proof (induction rule: walks.induct)
  case start
  show ?case by simp
next
  case (symbol pointer payload lit)
  have "decode_loop body pointer payload = decode_loop body (pointer + 1) (payload @ lit)"
    using symbol.hyps by (subst decode_loop.simps) (simp add: Let_def)
  with symbol.IH show ?case
    by (rule trans)
next
  case (frame pointer payload d i)
  have "decode_loop body pointer payload =
      decode_loop body (pointer + 2 + (i + 1))
        (payload @ slice body (pointer + 2) (pointer + 2 + (i + 1)))"
    using frame.hyps by (subst decode_loop.simps) (simp add: Let_def)
  with frame.IH show ?case
    by (rule trans)
qed

lemma decode_flag_0: "c \<noteq> CHR ''1'' \<Longrightarrow> decode inflate (c # body) = decode_loop body 0 []"
  by (simp add: decode_def getitem_def)

lemma decode_flag_1:
  "decode inflate (CHR ''1'' # body) =
     (case inflate body of Inl e \<Rightarrow> Inl e | Inr text \<Rightarrow> decode_loop text 0 [])"
  by (simp add: decode_def getitem_def)

text \<open>
  Claim C9. At every position where the decoder expects a token (the pointer of a
  state of the loop), a character that is neither a symbol code nor the marker \<open>5\<close>
  makes \<^verbatim>\<open>_decode\<close> raise the ValueError that reports this character, whether the
  payload is the body itself (flag \<open>0\<close>) or what the library returns for it (flag \<open>1\<close>).
\<close>

theorem decode_invalid_symbol:
  assumes "walks body pointer payload" and "pointer < length body"
    and "rev_table (body ! pointer) = None" and "body ! pointer \<noteq> CHR ''5''"
  shows "decode_loop body 0 [] = Inl (InvalidSymbol (body ! pointer))
    \<and> decode inflate (CHR ''0'' # body) = Inl (InvalidSymbol (body ! pointer))
    \<and> (inflate zipped = Inr body \<longrightarrow>
         decode inflate (CHR ''1'' # zipped) = Inl (InvalidSymbol (body ! pointer)))"
proof -
  have "decode_loop body pointer payload = Inl (InvalidSymbol (body ! pointer))"
    using assms(2-4) by (subst decode_loop.simps) (simp add: Let_def)
  with walks_decode_loop [OF assms(1)]
  have "decode_loop body 0 [] = Inl (InvalidSymbol (body ! pointer))"
    by (rule trans)
  then show ?thesis
    by (simp add: decode_flag_0 decode_flag_1)
qed

theorem decode_invalid_symbol_witness:
  "walks ''Q+'' 1 ''if'' \<and> 1 < length ''Q+'' \<and> rev_table (''Q+'' ! 1) = None
   \<and> ''Q+'' ! 1 \<noteq> CHR ''5''
   \<and> decode inflate_fails ''0Q+'' = Inl (InvalidSymbol CHR ''+'')"
proof -
  have w: "walks ''Q+'' 1 ''if''"
    by (rule walks_Q)
  have "CHR ''+'' \<notin> set codes"
    by (simp add: codes_def table_def)
  then have "rev_table CHR ''+'' = None"
    using dom_rev_table by (metis domIff)
  then have n: "rev_table (''Q+'' ! 1) = None"
    by simp
  have "decode inflate_fails (CHR ''0'' # ''Q+'') = Inl (InvalidSymbol (''Q+'' ! 1))"
    using decode_invalid_symbol [OF w _ n, of inflate_fails] by simp
  then show ?thesis
    using w n by simp
qed

text \<open>
  Claim C3, as stated: a frame that declares more characters than remain after its
  length digit makes \<^verbatim>\<open>_decode\<close> raise. It does not: in \<open>05Zab\<close> the frame declares 62
  characters, two remain, and \<^verbatim>\<open>_decode\<close> returns \<open>ab\<close>.
\<close>

theorem decode_truncated_frame_counterexample:
  "decode inflate_fails ''05Zab'' = Inr ''ab''"
proof -
  have g: "getitem ''5Zab'' (int (0 + 1)) = Inr CHR ''Z''"
    by (simp add: getitem_def)
  have "walks ''5Zab'' (0 + 2 + (61 + 1)) ([] @ slice ''5Zab'' (0 + 2) (0 + 2 + (61 + 1)))"
    by (rule walks.frame [OF walks.start _ _ _ g index_of_Z]) (simp_all add: rev_table_marker)
  then have "decode_loop ''5Zab'' 0 []
      = decode_loop ''5Zab'' (0 + 2 + (61 + 1)) ([] @ slice ''5Zab'' (0 + 2) (0 + 2 + (61 + 1)))"
    by (rule walks_decode_loop)
  also have "\<dots> = Inr ([] @ slice ''5Zab'' (0 + 2) (0 + 2 + (61 + 1)))"
    by (rule decode_loop_done) simp
  finally have "decode_loop ''5Zab'' 0 [] = Inr ''ab''"
    by (simp add: slice_def)
  then show ?thesis
    by (simp add: decode_flag_0)
qed

text \<open>
  Claim C3, amended. When the decoder is at a marker whose length digit declares more
  characters than remain after the digit, \<^verbatim>\<open>_decode\<close> raises nothing: the slice
  \<^verbatim>\<open>text[pointer:pointer + length]\<close> is clipped, the characters that remain are
  copied, and the loop ends, returning what was decoded before the frame followed
  by these characters.
\<close>

theorem decode_truncated_frame:
  assumes "walks body pointer payload" and "pointer + 1 < length body"
    and "body ! pointer = CHR ''5''"
    and "index_of base_62 (body ! (pointer + 1)) = Inr i"
    and "length body < pointer + 2 + (i + 1)"
  shows "decode_loop body 0 [] = Inr (payload @ drop (pointer + 2) body)
    \<and> decode inflate (CHR ''0'' # body) = Inr (payload @ drop (pointer + 2) body)"
proof -
  have g: "getitem body (int (pointer + 1)) = Inr (body ! (pointer + 1))"
    using assms(2) by (intro getitem_nat)
  have n: "rev_table (body ! pointer) = None"
    by (simp add: assms(3) rev_table_marker)
  have p: "pointer < length body"
    using assms(2) by simp
  have "walks body (pointer + 2 + (i + 1))
      (payload @ slice body (pointer + 2) (pointer + 2 + (i + 1)))"
    by (rule walks.frame [OF assms(1) p n assms(3) g assms(4)])
  then have "decode_loop body 0 [] = decode_loop body (pointer + 2 + (i + 1))
      (payload @ slice body (pointer + 2) (pointer + 2 + (i + 1)))"
    by (rule walks_decode_loop)
  also have "\<dots> = Inr (payload @ slice body (pointer + 2) (pointer + 2 + (i + 1)))"
    using assms(5) by (intro decode_loop_done) simp
  also have "slice body (pointer + 2) (pointer + 2 + (i + 1)) = drop (pointer + 2) body"
    using assms(5) by (simp add: slice_def)
  finally have "decode_loop body 0 [] = Inr (payload @ drop (pointer + 2) body)" .
  then show ?thesis
    by (simp add: decode_flag_0)
qed

theorem decode_truncated_frame_witness:
  "walks ''Q5Zab'' 1 ''if'' \<and> ''Q5Zab'' ! 1 = CHR ''5''
   \<and> index_of base_62 (''Q5Zab'' ! 2) = Inr 61 \<and> length ''Q5Zab'' < 1 + 2 + (61 + 1)
   \<and> decode inflate_fails ''0Q5Zab'' = Inr ''ifab''"
proof -
  have w: "walks ''Q5Zab'' 1 ''if''"
    by (rule walks_Q)
  have i: "index_of base_62 (''Q5Zab'' ! (1 + 1)) = Inr 61"
    using index_of_Z by simp
  have "decode inflate_fails (CHR ''0'' # ''Q5Zab'') = Inr (''if'' @ drop (1 + 2) ''Q5Zab'')"
    using decode_truncated_frame [OF w _ _ i, of inflate_fails] by simp
  then show ?thesis
    using w index_of_Z by simp
qed

section \<open>The tokenizer\<close>

lemma literals_nonempty: "[] \<notin> set literals"
  by (simp add: literals_def table_def)

lemma kywds_match_in_literals: "kywds_match s = Some l \<Longrightarrow> l \<in> set literals"
  by (auto simp: kywds_match_def find_Some_iff)

lemma kywds_match_prefix: "kywds_match s = Some l \<Longrightarrow> prefix l s"
  by (auto simp: kywds_match_def find_Some_iff)

lemma kywds_match_None: "kywds_match s = None \<longleftrightarrow> (\<forall>l\<in>set literals. \<not> prefix l s)"
  by (auto simp: kywds_match_def find_None_iff)


lemma concat_re_split_from: "concat (re_split_from gap s) = gap @ s"
proof (induction gap s rule: re_split_from.induct)
  case (1 gap)
  show ?case by simp
next
  case (2 gap c cs)
  show ?case
  proof (cases "kywds_match (c # cs)")
    case None
    with 2 show ?thesis by simp
  next
    case (Some l)
    then have "prefix l (c # cs)"
      by (rule kywds_match_prefix)
    then have whole: "l @ drop (length l) (c # cs) = c # cs"
      by (auto simp: prefix_def)
    have "concat (re_split_from gap (c # cs))
        = gap @ l @ concat (re_split_from [] (drop (length l) (c # cs)))"
      using Some by simp
    also have "\<dots> = gap @ l @ drop (length l) (c # cs)"
      using 2(2) [OF Some] by simp
    also have "\<dots> = gap @ c # cs"
      by (simp only: whole)
    finally show ?thesis .
  qed
qed

lemma concat_filter_nonempty: "concat (filter (\<lambda>x. x \<noteq> []) xs) = concat xs"
  by (induction xs) auto

lemma gap_no_literal:
  assumes "\<forall>p<length gap. kywds_match (drop p (gap @ s)) = None" and "l \<in> set literals"
  shows "\<not> sublist l gap"
proof
  assume "sublist l gap"
  then obtain ps ss where g: "gap = ps @ l @ ss"
    by (auto simp: sublist_def)
  from assms(2) literals_nonempty have "l \<noteq> []"
    by metis
  with g have "length ps < length gap"
    by simp
  with assms(1) have "kywds_match (drop (length ps) (gap @ s)) = None"
    by blast
  moreover have "drop (length ps) (gap @ s) = l @ ss @ s"
    by (simp add: g)
  ultimately have "kywds_match (l @ ss @ s) = None"
    by (simp only:)
  then have "\<forall>m\<in>set literals. \<not> prefix m (l @ ss @ s)"
    by (simp only: kywds_match_None)
  with assms(2) have "\<not> prefix l (l @ ss @ s)"
    by blast
  then show False
    by simp
qed

lemma re_split_from_gaps:
  assumes "\<forall>p<length gap. kywds_match (drop p (gap @ s)) = None"
    and "x \<in> set (re_split_from gap s)" and "x \<notin> set literals" and "l \<in> set literals"
  shows "\<not> sublist l x"
  using assms
proof (induction gap s rule: re_split_from.induct)
  case (1 gap)
  then have "x = gap"
    by simp
  with gap_no_literal [OF "1.prems"(1) "1.prems"(4)] show ?case
    by simp
next
  case (2 gap c cs)
  show ?case
  proof (cases "kywds_match (c # cs)")
    case None
    have "kywds_match (drop p ((gap @ [c]) @ cs)) = None" if "p < length (gap @ [c])" for p
    proof (cases "p < length gap")
      case True
      with "2.prems"(1) show ?thesis by simp
    next
      case False
      with that have "p = length gap" by simp
      with None show ?thesis by simp
    qed
    moreover from "2.prems"(2) None have "x \<in> set (re_split_from (gap @ [c]) cs)"
      by simp
    ultimately show ?thesis
      using "2.IH"(1) [OF None] "2.prems"(3,4) by blast
  next
    case (Some m)
    from "2.prems"(2) Some
    consider "x = gap" | "x = m" | "x \<in> set (re_split_from [] (drop (length m) (c # cs)))"
      by auto
    then show ?thesis
    proof cases
      case 1
      with gap_no_literal [OF "2.prems"(1) "2.prems"(4)] show ?thesis by simp
    next
      case 2
      with Some "2.prems"(3) kywds_match_in_literals show ?thesis by blast
    next
      case 3
      then show ?thesis
        using "2.IH"(2) [OF Some] "2.prems"(3,4) by simp
    qed
  qed
qed


lemma split_assert: "re_split ''assert'' = [[], ''as'', ''sert'']"
  by (simp add: re_split_def kywds_match_def literals_def table_def)

lemma split_if_xyz: "re_split ''if xyz'' = [[], ''if'', [], '' '', ''xyz'']"
  by (simp add: re_split_def kywds_match_def literals_def table_def)


lemma payload_if_xyz: "payload_of ''if xyz'' = Inr ''Q952xyz''"
  by (simp add: payload_of_def split_if_xyz table_get_def table_def form_ident_short base_62_def)





text \<open>
  Claim C10. The pieces of \<^verbatim>\<open>re.split\<close>, the empty ones dropped, concatenate to the
  input, and a piece that is not a literal of the table (the test \<^verbatim>\<open>x in table\<close> of
  \<^verbatim>\<open>_encode\<close>) contains no literal of the table as a substring.
\<close>

theorem re_split_covers:
  "concat (filter (\<lambda>x. x \<noteq> []) (re_split s)) = s
   \<and> (\<forall>x\<in>set (re_split s). x \<notin> set literals \<longrightarrow> (\<forall>l\<in>set literals. \<not> sublist l x))"
proof -
  have "concat (filter (\<lambda>x. x \<noteq> []) (re_split s)) = s"
    by (simp add: concat_filter_nonempty re_split_def concat_re_split_from)
  moreover have "\<not> sublist l x"
    if "x \<in> set (re_split s)" "x \<notin> set literals" "l \<in> set literals" for x l
    using re_split_from_gaps [of "[]" s x l] that by (simp add: re_split_def)
  ultimately show ?thesis
    by blast
qed

theorem re_split_covers_witness:
  "''xyz'' \<in> set (re_split ''if xyz'') \<and> ''xyz'' \<notin> set literals \<and> ''if'' \<in> set literals
   \<and> \<not> sublist ''if'' ''xyz''
   \<and> concat (filter (\<lambda>x. x \<noteq> []) (re_split ''if xyz'')) = ''if xyz''"
proof -
  have a: "''xyz'' \<in> set (re_split ''if xyz'')"
    by (simp add: split_if_xyz)
  have b: "''xyz'' \<notin> set literals" and c: "''if'' \<in> set literals"
    by (simp_all add: literals_def table_def)
  from re_split_covers [of "''if xyz''"] a b c have "\<not> sublist ''if'' ''xyz''"
    by blast
  moreover from re_split_covers [of "''if xyz''"]
  have "concat (filter (\<lambda>x. x \<noteq> []) (re_split ''if xyz'')) = ''if xyz''"
    by blast
  ultimately show ?thesis
    using a b c by blast
qed

section \<open>The compression gate\<close>

text \<open>
  The gate on a payload that has been built. With \<open>p\<close> the payload of the input: when
  \<open>len(p)\<close> is at most the threshold, \<^verbatim>\<open>_encode\<close> returns \<open>0\<close> followed by \<open>p\<close>; when it
  is more, \<^verbatim>\<open>_encode\<close> returns \<open>1\<close> followed by the compressed payload if that is
  shorter than \<open>0\<close> followed by \<open>p\<close>, and \<open>0\<close> followed by \<open>p\<close> otherwise; so the result
  is never longer than \<open>len(p) + 1\<close>, whatever the threshold and whatever the library
  returns.
\<close>

lemma gate_contract:
  assumes "payload_of s = Inr p"
  shows "(int (length p) \<le> t \<longrightarrow> encode deflate s t = Inr (CHR ''0'' # p))
    \<and> (t < int (length p) \<longrightarrow>
         encode deflate s t =
           Inr (if length (CHR ''1'' # deflate p) < length (CHR ''0'' # p)
                then CHR ''1'' # deflate p else CHR ''0'' # p))
    \<and> (\<exists>a. encode deflate s t = Inr a \<and> length a \<le> length p + 1)"
  using assms by (simp add: encode_def gate_def Let_def)

lemma gate_contract_example:
  "payload_of ''if xyz'' = Inr ''Q952xyz''
   \<and> encode (\<lambda>p. []) ''if xyz'' 1900 = Inr ''0Q952xyz''
   \<and> encode (\<lambda>p. []) ''if xyz'' 3 = Inr ''1''
   \<and> encode (\<lambda>p. p) ''if xyz'' 3 = Inr ''0Q952xyz''"
proof -
  note g = gate_contract [OF payload_if_xyz]
  have "encode (\<lambda>p. []) ''if xyz'' 1900 = Inr ''0Q952xyz''"
    using g [of 1900 "\<lambda>p. []"] by simp
  moreover have "encode (\<lambda>p. []) ''if xyz'' 3 = Inr ''1''"
    using g [of 3 "\<lambda>p. []"] by simp
  moreover have "encode (\<lambda>p. p) ''if xyz'' 3 = Inr ''0Q952xyz''"
    using g [of 3 "\<lambda>p. p"] by simp
  ultimately show ?thesis
    using payload_if_xyz by simp
qed

section \<open>The flag\<close>

lemma decode_loop_Q: "decode_loop ''Q'' 0 [] = Inr ''if''"
proof -
  have "decode_loop ''Q'' 0 [] = decode_loop ''Q'' 1 ''if''"
    by (rule walks_decode_loop) (rule walks_Q)
  also have "\<dots> = Inr ''if''"
    by (rule decode_loop_done) simp
  finally show ?thesis .
qed

lemma payload_if: "payload_of ''if'' = Inr ''Q''"
  by (simp add: payload_of_def re_split_def kywds_match_def literals_def table_get_def table_def)

text \<open>
  Claim C4, as stated: \<^verbatim>\<open>_decode\<close> treats a first character other than \<open>0\<close> or \<open>1\<close> as
  an error. It does not: \<open>2Q\<close> is decoded as \<open>0Q\<close> is.
\<close>

theorem decode_other_flag_counterexample:
  "decode inflate_fails ''2Q'' = Inr ''if''"
  using decode_loop_Q by (simp add: decode_flag_0)

text \<open>
  Claim C4, amended. What \<^verbatim>\<open>_encode\<close> returns begins with \<open>0\<close> or \<open>1\<close>. \<^verbatim>\<open>_decode\<close>
  compares the first character with \<open>1\<close> only: every other first character is handled
  as \<open>0\<close> is, the body being walked as a payload; under \<open>1\<close> the body goes to the
  library, and \<^verbatim>\<open>_decode\<close> fails when the library does, or when the walk of what the
  library returns does. The empty string has no flag and is an IndexError.
\<close>

theorem flag_handling:
  "(encode deflate s t = Inr a \<longrightarrow> (\<exists>b. a = CHR ''0'' # b \<or> a = CHR ''1'' # b))
   \<and> (c \<noteq> CHR ''1'' \<longrightarrow> decode inflate (c # body) = decode_loop body 0 [])
   \<and> decode inflate (CHR ''1'' # body) =
       (case inflate body of Inl e \<Rightarrow> Inl e | Inr p \<Rightarrow> decode_loop p 0 [])
   \<and> decode inflate [] = Inl IndexError"
proof -
  have "\<exists>b. a = CHR ''0'' # b \<or> a = CHR ''1'' # b" if "encode deflate s t = Inr a"
    using that by (auto simp: encode_def gate_def Let_def split: sum.splits if_splits)
  moreover have "decode inflate [] = Inl IndexError"
    by (simp add: decode_def getitem_def)
  ultimately show ?thesis
    using decode_flag_0 decode_flag_1 by blast
qed

theorem flag_handling_witness:
  "encode (\<lambda>p. p) ''if'' 1900 = Inr ''0Q''
   \<and> decode inflate_fails ''0Q'' = Inr ''if''
   \<and> decode inflate_fails ''1Q'' = Inl CodecError
   \<and> decode Inr ''1Q'' = Inr ''if''"
proof -
  have e: "encode (\<lambda>p. p) ''if'' 1900 = Inr ''0Q''"
    by (simp add: encode_def gate_def payload_if)
  note f = flag_handling [of "\<lambda>p. p" "''if''" 1900 "''0Q''" "CHR ''0''" _ "''Q''"]
  have "decode inflate_fails ''0Q'' = Inr ''if''"
    using f [of inflate_fails] decode_loop_Q by simp
  moreover have "decode inflate_fails ''1Q'' = Inl CodecError"
    using f [of inflate_fails] by (simp add: inflate_fails_def)
  moreover have "decode Inr ''1Q'' = Inr ''if''"
    using f [of Inr] decode_loop_Q by simp
  ultimately show ?thesis
    using e by simp
qed

section \<open>The round trip\<close>

text \<open>
  A payload built by \<^verbatim>\<open>_encode\<close> is walked back by the loop of \<^verbatim>\<open>_decode\<close> token by
  token: a code gives back its literal, and a frame gives back its raw characters,
  whatever they are. So the round trip holds for every text whose unknown segments
  have at most 62 characters, as long as the library inverts its own compression.
\<close>

lemma index_of_nth: "distinct xs \<Longrightarrow> n < length xs \<Longrightarrow> index_of xs (xs ! n) = Inr n"
proof (induction xs arbitrary: n)
  case Nil
  then show ?case by simp
next
  case (Cons x xs)
  show ?case
  proof (cases n)
    case 0
    then show ?thesis by simp
  next
    case (Suc m)
    with Cons.prems have "xs ! m \<in> set xs" "x \<notin> set xs"
      by simp_all
    then have "x \<noteq> xs ! m"
      by metis
    with Cons Suc show ?thesis
      by simp
  qed
qed

lemma distinct_base_62: "distinct base_62"
  by (simp add: base_62_def)

lemma decode_loop_symbol:
  assumes "rev_table c = Some lit"
  shows "decode_loop (pre @ c # rest) (length pre) out
    = decode_loop ((pre @ [c]) @ rest) (length (pre @ [c])) (out @ lit)"
  using assms by (subst decode_loop.simps) (simp add: Let_def)

lemma decode_loop_frame_step:
  assumes "pointer < length body" and "body ! pointer = CHR ''5''"
    and "getitem body (int (pointer + 1)) = Inr d" and "index_of base_62 d = Inr i"
  shows "decode_loop body pointer payload
    = decode_loop body (pointer + 2 + (i + 1))
        (payload @ slice body (pointer + 2) (pointer + 2 + (i + 1)))"
proof -
  have "rev_table (body ! pointer) = None"
    by (simp add: assms(2) rev_table_marker)
  then show ?thesis
    using assms by (subst decode_loop.simps) (simp add: Let_def)
qed

lemma decode_loop_frame:
  assumes "1 \<le> length x" and "length x \<le> 62"
  shows "decode_loop (pre @ (CHR ''5'' # base_62 ! (length x - 1) # x) @ rest) (length pre) out
    = decode_loop ((pre @ CHR ''5'' # base_62 ! (length x - 1) # x) @ rest)
        (length (pre @ CHR ''5'' # base_62 ! (length x - 1) # x)) (out @ x)"
proof -
  let ?d = "base_62 ! (length x - 1)"
  let ?body = "pre @ (CHR ''5'' # ?d # x) @ rest"
  have g: "getitem ?body (int (length pre + 1)) = Inr ?d"
    by (subst getitem_nat) (simp_all add: nth_append)
  have i: "index_of base_62 ?d = Inr (length x - 1)"
    using assms by (intro index_of_nth distinct_base_62) (simp add: length_base_62)
  have e: "length x - 1 + 1 = length x"
    using assms by simp
  have s: "slice ?body (length pre + 2) (length pre + 2 + length x) = x"
    by (simp add: slice_def)
  have m: "?body ! length pre = CHR ''5''"
    by (simp add: nth_append)
  have "decode_loop ?body (length pre) out
      = decode_loop ?body (length pre + 2 + (length x - 1 + 1))
          (out @ slice ?body (length pre + 2) (length pre + 2 + (length x - 1 + 1)))"
    by (rule decode_loop_frame_step [OF _ m g i]) simp
  then have "decode_loop ?body (length pre) out
      = decode_loop ?body (length pre + 2 + length x) (out @ x)"
    by (simp only: e s)
  then show ?thesis
    by simp
qed

lemma encode_loop_decodes:
  assumes "encode_loop xs acc = Inr p"
  shows "\<exists>q. p = acc @ q
    \<and> (\<forall>pre out. decode_loop (pre @ q) (length pre) out = Inr (out @ concat xs))"
  using assms
proof (induction xs arbitrary: acc)
  case Nil
  then show ?case
    by (simp add: decode_loop_done)
next
  case (Cons x xs)
  show ?case
  proof (cases "x = []")
    case True
    with Cons show ?thesis by simp
  next
    case False
    show ?thesis
    proof (cases "table_get x")
      case (Some c)
      with False Cons.prems have "encode_loop xs (acc @ [c]) = Inr p"
        by simp
      from Cons.IH [OF this] obtain q where q: "p = (acc @ [c]) @ q"
        "\<And>pre out. decode_loop (pre @ q) (length pre) out = Inr (out @ concat xs)"
        by blast
      from Some have r: "rev_table c = Some x"
        by (simp add: table_get_iff rev_table_iff)
      have "decode_loop (pre @ c # q) (length pre) out = Inr (out @ concat (x # xs))" for pre out
        using decode_loop_symbol [OF r, of pre q out] q(2) [of "pre @ [c]" "out @ x"] by simp
      with q(1) show ?thesis
        by simp
    next
      case None
      with False Cons.prems obtain f where f: "form_ident x = Inr f"
        "encode_loop xs (acc @ f) = Inr p"
        by (auto split: sum.splits)
      have len: "1 \<le> length x" "length x \<le> 62"
        using False f(1) form_ident_long [of x] by (cases x, simp_all) (cases "63 \<le> length x", simp_all)
      with f(1) have fx: "f = CHR ''5'' # base_62 ! (length x - 1) # x"
        by (simp add: form_ident_short)
      from Cons.IH [OF f(2)] obtain q where q: "p = (acc @ f) @ q"
        "\<And>pre out. decode_loop (pre @ q) (length pre) out = Inr (out @ concat xs)"
        by blast
      have "decode_loop (pre @ f @ q) (length pre) out = Inr (out @ concat (x # xs))" for pre out
        using decode_loop_frame [OF len, of pre q out] q(2) [of "pre @ f" "out @ x"]
        by (simp add: fx)
      with q(1) show ?thesis
        by simp
    qed
  qed
qed

lemma payload_decodes: "payload_of s = Inr p \<Longrightarrow> decode_loop p 0 [] = Inr s"
  using encode_loop_decodes [of "re_split s" "[]" p]
  by (auto simp: payload_of_def re_split_def concat_re_split_from dest: spec [of _ "[]"])

lemma encode_loop_total:
  assumes "\<forall>x\<in>set xs. x \<in> set literals \<or> length x \<le> 62"
  shows "\<exists>p. encode_loop xs acc = Inr p"
  using assms
proof (induction xs arbitrary: acc)
  case Nil
  show ?case by simp
next
  case (Cons x xs)
  then have IH: "\<exists>p. encode_loop xs acc' = Inr p" for acc'
    by simp
  show ?case
  proof (cases "x = [] \<or> table_get x \<noteq> None")
    case True
    with IH show ?thesis by auto
  next
    case False
    then have "x \<notin> set literals" "1 \<le> length x"
      using dom_table_get by (auto simp: Suc_le_eq)
    with Cons.prems have "form_ident x = Inr (CHR ''5'' # base_62 ! (length x - 1) # x)"
      by (intro form_ident_short) auto
    with False IH show ?thesis
      by auto
  qed
qed

lemma roundtrip_short_segments:
  assumes "\<forall>x\<in>set (re_split s). x \<in> set literals \<or> length x \<le> 62"
    and "\<forall>p. inflate (deflate p) = Inr p"
  shows "\<exists>a. encode deflate s t = Inr a \<and> decode inflate a = Inr s"
proof -
  obtain p where p: "payload_of s = Inr p"
    using encode_loop_total [OF assms(1)] by (auto simp: payload_of_def)
  then have d: "decode_loop p 0 [] = Inr s"
    by (rule payload_decodes)
  have "decode inflate (gate deflate p t) = Inr s"
    using d assms(2) by (simp add: gate_def Let_def decode_flag_0 decode_flag_1)
  with p show ?thesis
    by (simp add: encode_def)
qed

lemma kywds_match_x: "kywds_match (CHR ''x'' # s) = None"
  by (simp add: kywds_match_def literals_def table_def)

lemma re_split_from_xs: "re_split_from gap (replicate n CHR ''x'') = [gap @ replicate n CHR ''x'']"
  by (induction n arbitrary: gap) (simp_all add: kywds_match_x)

lemma literals_short: "l \<in> set literals \<Longrightarrow> length l \<le> 8"
  by (auto simp: literals_def table_def)

lemma table_get_long: "8 < length x \<Longrightarrow> table_get x = None"
  using literals_short dom_table_get by (metis domIff not_le)

text \<open>
  Claim C1: decoding what \<^verbatim>\<open>_encode\<close> returns gives the input back. For an input
  with an unknown segment of 63 characters there is nothing to decode: \<^verbatim>\<open>_encode\<close>
  raises the IndexError of \<^verbatim>\<open>_form_ident\<close>, for every threshold.
\<close>

theorem encode_long_segment_raises:
  "encode deflate (replicate 63 CHR ''x'') t = Inl IndexError"
proof -
  have "re_split (replicate 63 CHR ''x'') = [replicate 63 CHR ''x'']"
    by (simp add: re_split_def re_split_from_xs)
  moreover have "table_get (replicate 63 CHR ''x'') = None"
    by (rule table_get_long) simp
  moreover have "form_ident (replicate 63 CHR ''x'') = Inl IndexError"
    by (rule form_ident_long) simp
  moreover have "replicate 63 CHR ''x'' \<noteq> []"
    by simp
  ultimately have "payload_of (replicate 63 CHR ''x'') = Inl IndexError"
    by (simp add: payload_of_def)
  then show ?thesis
    by (simp add: encode_def)
qed

section \<open>The gate on every input\<close>

text \<open>
  The payload is built, and the contract of the gate holds with it, for every text
  whose unknown segments have at most 62 characters.
\<close>

lemma split_if_xs:
  "re_split (''if '' @ replicate n CHR ''x'') = [[], ''if'', [], '' '', replicate n CHR ''x'']"
proof -
  have a: "kywds_match (''if '' @ replicate n CHR ''x'') = Some ''if''"
    by (simp add: kywds_match_def literals_def table_def)
  have b: "kywds_match ('' '' @ replicate n CHR ''x'') = Some '' ''"
    by (simp add: kywds_match_def literals_def table_def)
  have "re_split_from [] (''if '' @ replicate n CHR ''x'')
      = [] # ''if'' # re_split_from [] ('' '' @ replicate n CHR ''x'')"
    using a by simp
  also have "re_split_from [] ('' '' @ replicate n CHR ''x'')
      = [] # '' '' # re_split_from [] (replicate n CHR ''x'')"
    using b by simp
  finally show ?thesis
    by (simp add: re_split_def re_split_from_xs)
qed

lemma gate_contract_short_segments:
  assumes "\<forall>x\<in>set (re_split s). x \<in> set literals \<or> length x \<le> 62"
  shows "\<exists>p. payload_of s = Inr p
    \<and> (int (length p) \<le> t \<longrightarrow> encode deflate s t = Inr (CHR ''0'' # p))
    \<and> (t < int (length p) \<longrightarrow>
         encode deflate s t =
           Inr (if length (CHR ''1'' # deflate p) < length (CHR ''0'' # p)
                then CHR ''1'' # deflate p else CHR ''0'' # p))
    \<and> (\<exists>a. encode deflate s t = Inr a \<and> length a \<le> length p + 1)"
proof -
  obtain p where p: "payload_of s = Inr p"
    using encode_loop_total [OF assms] by (auto simp: payload_of_def)
  from gate_contract [OF p] p show ?thesis
    by blast
qed

text \<open>
  Claim C5: for every input and every threshold the gate returns \<open>0\<close> followed by the
  payload or the shorter compressed form, so that the result is at most one character
  longer than the payload. For an input with an unknown segment of 63 characters this
  fails: the payload is never built, so the gate is not reached and \<^verbatim>\<open>_encode\<close>
  returns nothing; it raises the IndexError of \<^verbatim>\<open>_form_ident\<close>, for every threshold
  and whatever the library returns.
\<close>

theorem gate_long_segment_raises:
  "payload_of (''if '' @ replicate 63 CHR ''x'') = Inl IndexError
   \<and> encode deflate (''if '' @ replicate 63 CHR ''x'') t = Inl IndexError"
proof -
  have q: "table_get ''if'' = Some CHR ''Q''" "table_get '' '' = Some CHR ''9''"
    by (simp_all add: table_get_def table_def)
  have n: "table_get (replicate 63 CHR ''x'') = None"
    by (rule table_get_long) simp
  have f: "form_ident (replicate 63 CHR ''x'') = Inl IndexError"
    by (rule form_ident_long) simp
  have e: "replicate 63 CHR ''x'' \<noteq> []"
    by simp
  have "encode_loop [[], ''if'', [], '' '', replicate 63 CHR ''x''] [] = Inl IndexError"
    using q n f e by simp
  then have "payload_of (''if '' @ replicate 63 CHR ''x'') = Inl IndexError"
    by (simp only: payload_of_def split_if_xs)
  then show ?thesis
    by (simp add: encode_def)
qed

end
